theory Spec2Isabelle
  imports Complex_Main
begin

section \<open>The host: outcomes of calls, the repeating timer, the promise\<close>

text \<open>
  The library is two functions, \<^verbatim>\<open>sync\<close> and \<^verbatim>\<open>async\<close> of \<^verbatim>\<open>src/index.ts\<close>. Each
  registers one repeating timer with \<^verbatim>\<open>setInterval\<close>; everything else happens when the
  host fires that timer. A call of a caller-supplied function either returns or throws,
  and may change the caller's own state, the environment \<open>'e\<close>.
\<close>

datatype 'a outcome = Returned 'a | Threw string

type_synonym 'e conditionFn = "'e \<Rightarrow> bool outcome \<times> 'e"

type_synonym 'e callbackFn = "'e \<Rightarrow> unit outcome \<times> 'e"

text \<open>The two arrow functions handed to \<^verbatim>\<open>setInterval\<close>, with the variables they capture.\<close>

datatype 'e closure =
    SyncTick "'e conditionFn" "'e callbackFn"
  | AsyncTick "'e conditionFn" "'e callbackFn"

datatype promise = Pending | Fulfilled bool | Rejected string

text \<open>What a run does, in order; each entry of the trace carries the number of the tick.\<close>

datatype event =
    Evaluated "bool outcome"
  | Cleared
  | Called "unit outcome"
  | Resolved bool
  | Uncaught string

record 'e timer =
  handler :: "'e closure"
  period :: nat
  due :: nat

text \<open>
  The state of one invocation: the caller's environment, the clock in milliseconds, the
  timer of the invocation (\<open>None\<close> before \<^verbatim>\<open>setInterval\<close> and after \<^verbatim>\<open>clearInterval\<close>), the
  promise (\<open>None\<close> for \<^verbatim>\<open>sync\<close>, which creates none), the number of ticks fired, the trace.
\<close>

record 'e host =
  env :: 'e
  clock :: nat
  interval :: "'e timer option"
  promise :: "promise option"
  fired :: nat
  trace :: "(nat \<times> event) list"

definition init :: "'e \<Rightarrow> nat \<Rightarrow> 'e host" where
  "init e t = \<lparr>env = e, clock = t, interval = None, promise = None, fired = 0, trace = []\<rparr>"

definition emit :: "event \<Rightarrow> 'e host \<Rightarrow> 'e host" where
  "emit ev s = s\<lparr>trace := trace s @ [(fired s, ev)]\<rparr>"

text \<open>
  A delay is a JavaScript number. The host (Node, Bun) coerces it before it registers the
  timer: a delay larger than 2147483647, less than 1, or \<^verbatim>\<open>NaN\<close> is set to 1, and a
  non-integer delay is truncated to an integer.
\<close>

datatype number = Num real | NaN | PosInf | NegInf

definition host_delay :: "number \<Rightarrow> nat" where
  "host_delay d =
     (case d of
        Num x \<Rightarrow> if 1 \<le> x \<and> x \<le> 2147483647 then nat \<lfloor>x\<rfloor> else 1
      | NaN \<Rightarrow> 1
      | PosInf \<Rightarrow> 1
      | NegInf \<Rightarrow> 1)"

definition setInterval :: "'e closure \<Rightarrow> number \<Rightarrow> 'e host \<Rightarrow> 'e host" where
  "setInterval f ms s =
     s\<lparr>interval :=
         Some \<lparr>handler = f, period = host_delay ms, due = clock s + host_delay ms\<rparr>\<rparr>"

definition clearInterval :: "'e host \<Rightarrow> 'e host" where
  "clearInterval s = emit Cleared (s\<lparr>interval := None\<rparr>)"

text \<open>\<^verbatim>\<open>resolve(v)\<close> settles a pending promise and does nothing to a settled one.\<close>

definition resolve :: "bool \<Rightarrow> 'e host \<Rightarrow> 'e host" where
  "resolve v s =
     (if promise s = Some Pending
      then emit (Resolved v) (s\<lparr>promise := Some (Fulfilled v)\<rparr>)
      else s)"

definition call_condition :: "'e conditionFn \<Rightarrow> 'e host \<Rightarrow> bool outcome \<times> 'e host" where
  "call_condition conditionFn s =
     (case conditionFn (env s) of (r, e') \<Rightarrow> (r, emit (Evaluated r) (s\<lparr>env := e'\<rparr>)))"

definition call_callback :: "'e callbackFn \<Rightarrow> 'e host \<Rightarrow> unit outcome \<times> 'e host" where
  "call_callback callback s =
     (case callback (env s) of (r, e') \<Rightarrow> (r, emit (Called r) (s\<lparr>env := e'\<rparr>)))"

section \<open>The source: \<^verbatim>\<open>sync\<close> and \<^verbatim>\<open>async\<close>\<close>

text \<open>
  \<^verbatim>\<open>
  () => { if (conditionFn()) { clearInterval(interval); callback(); } }
  \<close>
  There is no \<^verbatim>\<open>try\<close>: a throw of either call ends the tick at once.
\<close>

definition sync_tick ::
  "'e conditionFn \<Rightarrow> 'e callbackFn \<Rightarrow> 'e host \<Rightarrow> unit outcome \<times> 'e host" where
  "sync_tick conditionFn callback s =
     (case call_condition conditionFn s of
        (Threw x, s1) \<Rightarrow> (Threw x, s1)
      | (Returned b, s1) \<Rightarrow>
          if b then
            (case call_callback callback (clearInterval s1) of
               (Threw x, s2) \<Rightarrow> (Threw x, s2)
             | (Returned u, s2) \<Rightarrow> (Returned (), s2))
          else (Returned (), s1))"

text \<open>
  \<^verbatim>\<open>
  () => { if (conditionFn()) { clearInterval(interval); callback(); resolve(true); } }
  \<close>
\<close>

definition async_tick ::
  "'e conditionFn \<Rightarrow> 'e callbackFn \<Rightarrow> 'e host \<Rightarrow> unit outcome \<times> 'e host" where
  "async_tick conditionFn callback s =
     (case call_condition conditionFn s of
        (Threw x, s1) \<Rightarrow> (Threw x, s1)
      | (Returned b, s1) \<Rightarrow>
          if b then
            (case call_callback callback (clearInterval s1) of
               (Threw x, s2) \<Rightarrow> (Threw x, s2)
             | (Returned u, s2) \<Rightarrow> (Returned (), resolve True s2))
          else (Returned (), s1))"

fun run_closure :: "'e closure \<Rightarrow> 'e host \<Rightarrow> unit outcome \<times> 'e host" where
  "run_closure (SyncTick conditionFn callback) s = sync_tick conditionFn callback s"
| "run_closure (AsyncTick conditionFn callback) s = async_tick conditionFn callback s"

text \<open>The default of \<^verbatim>\<open>intervalMs: number = 50\<close>; \<open>None\<close> is the omitted argument.\<close>

definition interval_or_default :: "number option \<Rightarrow> number" where
  "interval_or_default intervalMs = (case intervalMs of None \<Rightarrow> Num 50 | Some ms \<Rightarrow> ms)"

text \<open>
  \<^verbatim>\<open>
  export function sync(conditionFn, callback, intervalMs = 50) {
      const interval = setInterval(() => {...}, intervalMs);
  }
  \<close>
\<close>

definition sync ::
  "'e conditionFn \<Rightarrow> 'e callbackFn \<Rightarrow> number option \<Rightarrow> 'e host \<Rightarrow> 'e host" where
  "sync conditionFn callback intervalMs s =
     setInterval (SyncTick conditionFn callback) (interval_or_default intervalMs) s"

text \<open>
  \<^verbatim>\<open>
  export function async(conditionFn, callback, intervalMs = 50): Promise<boolean> {
      return new Promise((resolve) => { const interval = setInterval(() => {...}, intervalMs); });
  }
  \<close>
  The executor runs inside \<^verbatim>\<open>new Promise\<close>, before \<^verbatim>\<open>async\<close> returns; the promise returned
  is the field \<open>promise\<close> of the state.
\<close>

definition async ::
  "'e conditionFn \<Rightarrow> 'e callbackFn \<Rightarrow> number option \<Rightarrow> 'e host \<Rightarrow> 'e host" where
  "async conditionFn callback intervalMs s =
     setInterval (AsyncTick conditionFn callback) (interval_or_default intervalMs)
       (s\<lparr>promise := Some Pending\<rparr>)"

section \<open>The event loop\<close>

text \<open>
  Between two calls of the library the host lets time pass, runs other code of the caller
  (which changes the environment only: the timer handle and \<^verbatim>\<open>resolve\<close> never leave the
  closures), or fires the timer. A timer fires only once it is due; it is rescheduled one
  period later, and the tick then runs to its end. A throw that leaves the tick is
  reported by the host and the timer stays as the tick left it; a host that stops at an
  uncaught throw runs a prefix of such a schedule, and the properties below hold after
  every schedule. The clock is the host's timer clock, in whole milliseconds.
\<close>

datatype 'e action = Advance nat | Other "'e \<Rightarrow> 'e" | Fire

fun step :: "'e action \<Rightarrow> 'e host \<Rightarrow> 'e host" where
  "step (Advance d) s = s\<lparr>clock := clock s + d\<rparr>"
| "step (Other f) s = s\<lparr>env := f (env s)\<rparr>"
| "step Fire s =
     (case interval s of
        None \<Rightarrow> s
      | Some t \<Rightarrow>
          if clock s < due t then s
          else
            (case run_closure (handler t)
                    (s\<lparr>fired := Suc (fired s),
                       interval := Some (t\<lparr>due := clock s + period t\<rparr>)\<rparr>) of
               (Returned u, s') \<Rightarrow> s'
             | (Threw x, s') \<Rightarrow> emit (Uncaught x) s'))"

definition run :: "'e action list \<Rightarrow> 'e host \<Rightarrow> 'e host" where
  "run acts s = fold step acts s"

section \<open>Observations on a trace\<close>

fun evaluations_of :: "(nat \<times> event) list \<Rightarrow> (nat \<times> bool outcome) list" where
  "evaluations_of [] = []"
| "evaluations_of ((n, Evaluated r) # es) = (n, r) # evaluations_of es"
| "evaluations_of (e # es) = evaluations_of es"

fun invocations_of :: "(nat \<times> event) list \<Rightarrow> (nat \<times> unit outcome) list" where
  "invocations_of [] = []"
| "invocations_of ((n, Called r) # es) = (n, r) # invocations_of es"
| "invocations_of (e # es) = invocations_of es"

definition evaluations :: "'e host \<Rightarrow> (nat \<times> bool outcome) list" where
  "evaluations s = evaluations_of (trace s)"

definition invocations :: "'e host \<Rightarrow> (nat \<times> unit outcome) list" where
  "invocations s = invocations_of (trace s)"

section \<open>Invariants of an invocation\<close>

text \<open>Events that leave the timer running: a condition that returned false or threw.\<close>

fun quiet :: "event \<Rightarrow> bool" where
  "quiet (Evaluated (Returned b)) = (\<not> b)"
| "quiet (Evaluated (Threw x)) = True"
| "quiet (Uncaught x) = True"
| "quiet ev = False"

definition initial_promise :: "'e closure \<Rightarrow> promise option" where
  "initial_promise f = (case f of SyncTick c cb \<Rightarrow> None | AsyncTick c cb \<Rightarrow> Some Pending)"

definition settled_promise :: "'e closure \<Rightarrow> unit outcome \<Rightarrow> promise option" where
  "settled_promise f r =
     (case f of
        SyncTick c cb \<Rightarrow> None
      | AsyncTick c cb \<Rightarrow>
          (case r of Returned u \<Rightarrow> Some (Fulfilled True) | Threw x \<Rightarrow> Some Pending))"

text \<open>The events of the tick on which the condition returns true, callback outcome \<open>r\<close>.\<close>

definition success_events :: "'e closure \<Rightarrow> nat \<Rightarrow> unit outcome \<Rightarrow> (nat \<times> event) list" where
  "success_events f n r =
     [(n, Evaluated (Returned True)), (n, Cleared), (n, Called r)] @
     (case r of
        Returned u \<Rightarrow> (case f of SyncTick c cb \<Rightarrow> [] | AsyncTick c cb \<Rightarrow> [(n, Resolved True)])
      | Threw x \<Rightarrow> [(n, Uncaught x)])"

definition polling :: "'e closure \<Rightarrow> nat \<Rightarrow> 'e host \<Rightarrow> bool" where
  "polling f ms s \<longleftrightarrow>
     (\<exists>t. interval s = Some t \<and> handler t = f \<and> period t = ms) \<and>
     promise s = initial_promise f \<and>
     (\<forall>(n, ev) \<in> set (trace s). quiet ev \<and> n \<le> fired s)"

definition finished :: "'e closure \<Rightarrow> 'e host \<Rightarrow> bool" where
  "finished f s \<longleftrightarrow>
     interval s = None \<and>
     (\<exists>pre r. trace s = pre @ success_events f (fired s) r \<and>
        (\<forall>(n, ev) \<in> set pre. quiet ev \<and> n < fired s) \<and>
        promise s = settled_promise f r)"


text \<open>The timer has fired \<open>k\<close> times and is due again within one period.\<close>

definition ticking :: "nat \<Rightarrow> nat \<Rightarrow> 'e host \<Rightarrow> bool" where
  "ticking ms k s \<longleftrightarrow>
     fired s = k \<and> (\<exists>t. interval s = Some t \<and> period t = ms \<and> due t \<le> clock s + ms)"

text \<open>
  The only failure the documentation describes is the timeout, which rejects the promise;
  \<^verbatim>\<open>sync\<close> has no channel that could carry one.
\<close>

definition timeout_signaled :: "'e host \<Rightarrow> bool" where
  "timeout_signaled s = (case promise s of Some (Rejected m) \<Rightarrow> True | _ \<Rightarrow> False)"

section \<open>\<^verbatim>\<open>async\<close> seen as \<^verbatim>\<open>sync\<close>\<close>

definition as_sync :: "'e closure \<Rightarrow> 'e closure" where
  "as_sync f = (case f of SyncTick c cb \<Rightarrow> SyncTick c cb | AsyncTick c cb \<Rightarrow> SyncTick c cb)"

fun is_resolved :: "nat \<times> event \<Rightarrow> bool" where
  "is_resolved (n, Resolved v) = True"
| "is_resolved (n, ev) = False"

text \<open>Drops all that concerns the promise: the field, the events of \<^verbatim>\<open>resolve\<close>, the closure's kind.\<close>

definition forget_promise :: "'e host \<Rightarrow> 'e host" where
  "forget_promise s =
     s\<lparr>interval := map_option (\<lambda>t. t\<lparr>handler := as_sync (handler t)\<rparr>) (interval s),
       promise := None,
       trace := filter (\<lambda>x. \<not> is_resolved x) (trace s)\<rparr>"

section \<open>Concrete callers\<close>

text \<open>
  The callers of \<^verbatim>\<open>test.ts\<close>: the environment is the pair of the test's counter and the
  mock callback's \<^verbatim>\<open>callCount\<close>. \<open>counting_condition k\<close> is the condition of tests 1.1 and 2.1,
  which counts its evaluations and is true from the \<open>k\<close>-th on.
\<close>

definition counting_condition :: "nat \<Rightarrow> (nat \<times> nat) conditionFn" where
  "counting_condition k e = (Returned (k \<le> Suc (fst e)), (Suc (fst e), snd e))"

definition mock_callback :: "(nat \<times> nat) callbackFn" where
  "mock_callback e = (Returned (), (fst e, Suc (snd e)))"

definition never_true :: "'e conditionFn" where
  "never_true e = (Returned False, e)"

definition always_true :: "'e conditionFn" where
  "always_true e = (Returned True, e)"

definition throwing_condition :: "'e conditionFn" where
  "throwing_condition e = (Threw ''bad'', e)"

definition throwing_callback :: "'e callbackFn" where
  "throwing_callback e = (Threw ''boom'', e)"


text \<open>\<open>n\<close> periods of \<open>ms\<close> milliseconds, the timer fired at the end of each.\<close>

definition poll_ticks :: "nat \<Rightarrow> nat \<Rightarrow> 'e action list" where
  "poll_ticks ms n = concat (replicate n [Advance ms, Fire])"

text \<open>Test 1.1: \<^verbatim>\<open>when.sync(cond, cb, 10)\<close>, the condition true from its third evaluation.\<close>

definition test_sync_1_1 :: "(nat \<times> nat) host" where
  "test_sync_1_1 =
     run [Advance 10, Fire, Advance 10, Fire, Advance 10, Fire, Advance 10, Fire, Advance 10, Fire]
       (sync (counting_condition 3) mock_callback (Some (Num 10)) (init (0, 0) 0))"

text \<open>Test 2.1: \<^verbatim>\<open>when.async(cond, cb, 10)\<close>, the condition true from its second evaluation.\<close>

definition test_async_2_1 :: "(nat \<times> nat) host" where
  "test_async_2_1 =
     run [Advance 10, Fire, Advance 10, Fire, Advance 10, Fire]
       (async (counting_condition 2) mock_callback (Some (Num 10)) (init (0, 0) 0))"

text \<open>Test 2.3, \<^verbatim>\<open>when.async(() => false, cb, 10)\<close>, left running for six seconds.\<close>

definition test_async_2_3 :: "(nat \<times> nat) host" where
  "test_async_2_3 =
     run (poll_ticks 10 600) (async never_true mock_callback (Some (Num 10)) (init (0, 0) 0))"

text \<open>
  The README's timeout example for \<^verbatim>\<open>sync\<close>, scaled down: \<^verbatim>\<open>when.sync(cond, cb, 10, 25)\<close>
  with a condition true from its fifth evaluation, at 50 ms. The function declares three
  parameters, so the call runs as \<^verbatim>\<open>sync(cond, cb, 10)\<close>.
\<close>

definition readme_sync_timeout :: "(nat \<times> nat) host" where
  "readme_sync_timeout =
     run [Advance 10, Fire, Advance 10, Fire, Advance 10, Fire, Advance 10, Fire, Advance 10, Fire]
       (sync (counting_condition 5) mock_callback (Some (Num 10)) (init (0, 0) 0))"

text \<open>\<^verbatim>\<open>when.async(() => true, () => { throw "boom" })\<close>, followed for five seconds.\<close>

definition stuck_async :: "unit host" where
  "stuck_async =
     run [Advance 50, Fire, Advance 50, Fire, Advance 5000, Fire]
       (async always_true throwing_callback None (init () 0))"


text \<open>The condition of test 2.1 with a callback that throws, under \<^verbatim>\<open>sync\<close> and under \<^verbatim>\<open>async\<close>.\<close>

definition throwing_sync_run :: "(nat \<times> nat) host" where
  "throwing_sync_run =
     run [Advance 10, Fire, Advance 10, Fire, Advance 10, Fire]
       (sync (counting_condition 2) throwing_callback (Some (Num 10)) (init (0, 0) 0))"

definition throwing_async_run :: "(nat \<times> nat) host" where
  "throwing_async_run =
     run [Advance 10, Fire, Advance 10, Fire, Advance 10, Fire]
       (async (counting_condition 2) throwing_callback (Some (Num 10)) (init (0, 0) 0))"

section \<open>The invariant: polling, then finished for good\<close>

lemmas tick_defs = sync_tick_def async_tick_def call_condition_def call_callback_def
  clearInterval_def resolve_def emit_def

lemma finished_step: "finished f s \<Longrightarrow> finished f (step a s) \<and> trace (step a s) = trace s \<and> interval (step a s) = None"
  by (cases a) (auto simp: finished_def)

lemma finishedI:
  "interval s = None \<Longrightarrow> trace s = pre @ success_events f (fired s) r \<Longrightarrow>
   (\<forall>(n, ev) \<in> set pre. quiet ev \<and> n < fired s) \<Longrightarrow> promise s = settled_promise f r \<Longrightarrow>
   finished f s"
  unfolding finished_def by blast

lemma polling_fire:
  assumes p: "polling f ms s"
  shows "polling f ms (step Fire s) \<or> finished f (step Fire s)"
proof -
  from p obtain t where t: "interval s = Some t" "handler t = f" "period t = ms"
    by (auto simp: polling_def)
  from p have pr: "promise s = initial_promise f"
    and tr: "\<forall>(n, ev) \<in> set (trace s). quiet ev \<and> n \<le> fired s"
    by (auto simp: polling_def)
  from tr have tr': "\<forall>(n, ev) \<in> set (trace s). quiet ev \<and> n < Suc (fired s)"
    by fastforce
  from tr have tr'': "\<forall>(n, ev) \<in> set (trace s). quiet ev \<and> n \<le> Suc (fired s)"
    by fastforce
  obtain c cb where f: "f = SyncTick c cb \<or> f = AsyncTick c cb"
    by (cases f) auto
  obtain rc e1 where c: "c (env s) = (rc, e1)" by (cases "c (env s)")
  obtain rb e2 where cb: "cb e1 = (rb, e2)" by (cases "cb e1")
  show ?thesis
  proof (cases "clock s < due t")
    case True
    then show ?thesis using p t by simp
  next
    case False
    show ?thesis
    proof (cases rc)
      case (Threw x)
      then have "polling f ms (step Fire s)"
        using f t False c pr tr'' by (auto simp: tick_defs polling_def)
      then show ?thesis ..
    next
      case (Returned b)
      show ?thesis
      proof (cases b)
        case False
        then have "polling f ms (step Fire s)"
          using f t \<open>\<not> clock s < due t\<close> c pr tr'' Returned by (auto simp: tick_defs polling_def)
        then show ?thesis ..
      next
        case True
        have "finished f (step Fire s)"
        proof (rule finishedI [where pre = "trace s" and r = rb])
          show "interval (step Fire s) = None"
            using f t \<open>\<not> clock s < due t\<close> c cb Returned True
            by (cases rb) (auto simp: tick_defs)
          show "trace (step Fire s) = trace s @ success_events f (fired (step Fire s)) rb"
            using f t \<open>\<not> clock s < due t\<close> c cb pr Returned True
            by (cases rb) (auto simp: tick_defs success_events_def initial_promise_def)
          show "\<forall>(n, ev) \<in> set (trace s). quiet ev \<and> n < fired (step Fire s)"
            using f t \<open>\<not> clock s < due t\<close> c cb Returned True tr'
            by (cases rb) (auto simp: tick_defs)
          show "promise (step Fire s) = settled_promise f rb"
            using f t \<open>\<not> clock s < due t\<close> c cb pr Returned True
            by (cases rb) (auto simp: tick_defs settled_promise_def initial_promise_def)
        qed
        then show ?thesis ..
      qed
    qed
  qed
qed

lemma polling_step: "polling f ms s \<Longrightarrow> polling f ms (step a s) \<or> finished f (step a s)"
proof (cases a)
  case (Advance d)
  assume "polling f ms s"
  then show ?thesis using Advance by (auto simp: polling_def)
next
  case (Other g)
  assume "polling f ms s"
  then show ?thesis using Other by (auto simp: polling_def)
next
  case Fire
  assume "polling f ms s"
  then show ?thesis using Fire polling_fire by blast
qed

lemma finished_run:
  "finished f s \<Longrightarrow> finished f (run acts s) \<and> trace (run acts s) = trace s \<and> interval (run acts s) = None"
proof (induction acts arbitrary: s)
  case Nil
  then show ?case by (simp add: run_def finished_def)
next
  case (Cons a acts)
  from finished_step [OF Cons.prems, of a] Cons.IH [of "step a s"]
  show ?case by (simp add: run_def)
qed

lemma polling_run: "polling f ms s \<Longrightarrow> polling f ms (run acts s) \<or> finished f (run acts s)"
proof (induction acts arbitrary: s)
  case Nil
  then show ?case by (simp add: run_def)
next
  case (Cons a acts)
  from polling_step [OF Cons.prems, of a]
  show ?case
  proof
    assume "polling f ms (step a s)"
    from Cons.IH [OF this] show ?thesis by (simp add: run_def)
  next
    assume "finished f (step a s)"
    from finished_run [OF this, of acts] show ?thesis by (simp add: run_def)
  qed
qed

lemma polling_sync:
  "polling (SyncTick c cb) (host_delay (interval_or_default i)) (sync c cb i (init e t0))"
  by (simp add: polling_def sync_def setInterval_def init_def initial_promise_def)

lemma polling_async:
  "polling (AsyncTick c cb) (host_delay (interval_or_default i)) (async c cb i (init e t0))"
  by (simp add: polling_def async_def setInterval_def init_def initial_promise_def)

section \<open>What the trace of a reachable state looks like\<close>

lemma evaluations_of_append:
  "evaluations_of (xs @ ys) = evaluations_of xs @ evaluations_of ys"
  by (induction xs rule: evaluations_of.induct) auto

lemma invocations_of_append:
  "invocations_of (xs @ ys) = invocations_of xs @ invocations_of ys"
  by (induction xs rule: invocations_of.induct) auto

lemma quiet_evaluations:
  "\<forall>(n, ev) \<in> set tr. quiet ev \<and> n < m \<Longrightarrow>
   \<forall>(n, r) \<in> set (evaluations_of tr). n < m \<and> r \<noteq> Returned True"
  by (induction tr rule: evaluations_of.induct) auto

lemma quiet_invocations:
  "\<forall>(n, ev) \<in> set tr. quiet ev \<and> n < m \<Longrightarrow> invocations_of tr = []"
  by (induction tr rule: invocations_of.induct) auto

lemma success_evaluations: "evaluations_of (success_events f n r) = [(n, Returned True)]"
  by (cases r; cases f) (simp_all add: success_events_def)

lemma success_invocations: "invocations_of (success_events f n r) = [(n, r)]"
  by (cases r; cases f) (simp_all add: success_events_def)

lemma polling_obs:
  assumes "polling f ms s"
  shows "(N, Returned True) \<notin> set (evaluations s)" and "invocations s = []"
    and "interval s \<noteq> None" and "promise s = initial_promise f"
proof -
  from assms have q: "\<forall>(n, ev) \<in> set (trace s). quiet ev \<and> n < Suc (fired s)"
    by (fastforce simp: polling_def)
  from quiet_evaluations [OF q] show "(N, Returned True) \<notin> set (evaluations s)"
    by (auto simp: evaluations_def)
  from quiet_invocations [OF q] show "invocations s = []"
    by (simp add: invocations_def)
  from assms show "interval s \<noteq> None" and "promise s = initial_promise f"
    by (auto simp: polling_def)
qed

lemma finished_obs:
  assumes "finished f s"
  shows "\<exists>earlier r. evaluations s = earlier @ [(fired s, Returned True)] \<and>
           (\<forall>(n, r') \<in> set earlier. n < fired s \<and> r' \<noteq> Returned True) \<and>
           invocations s = [(fired s, r)] \<and> promise s = settled_promise f r \<and>
           (\<exists>pre. trace s = pre @ success_events f (fired s) r)"
proof -
  from assms obtain pre r where tr: "trace s = pre @ success_events f (fired s) r"
    and q: "\<forall>(n, ev) \<in> set pre. quiet ev \<and> n < fired s"
    and pr: "promise s = settled_promise f r"
    by (auto simp: finished_def)
  have "evaluations s = evaluations_of pre @ [(fired s, Returned True)]"
    by (simp add: evaluations_def tr evaluations_of_append success_evaluations)
  moreover have "invocations s = [(fired s, r)]"
    by (simp add: invocations_def tr invocations_of_append success_invocations
        quiet_invocations [OF q])
  ultimately show ?thesis using quiet_evaluations [OF q] pr tr by blast
qed

lemma finished_true_tick:
  assumes "finished f s" and "(N, Returned True) \<in> set (evaluations s)"
  shows "N = fired s"
proof -
  from finished_obs [OF assms(1)] obtain earlier where
    e: "evaluations s = earlier @ [(fired s, Returned True)]"
    and q: "\<forall>(n, r') \<in> set earlier. n < fired s \<and> r' \<noteq> Returned True"
    by blast
  from assms(2) e q show ?thesis by auto
qed

lemma reach_cases:
  assumes "s = run acts (sync c cb i (init e t0)) \<or> s = run acts (async c cb i (init e t0))"
  obtains f where "f = SyncTick c cb \<or> f = AsyncTick c cb"
    and "polling f (host_delay (interval_or_default i)) s \<or> finished f s"
  using assms polling_run [OF polling_sync [of c cb i e t0], of acts]
    polling_run [OF polling_async [of c cb i e t0], of acts]
  by blast

section \<open>Frame properties of a tick\<close>

lemma closure_frame:
  "clock (snd (run_closure f s)) = clock s"
  "interval (snd (run_closure f s)) = None \<or> interval (snd (run_closure f s)) = interval s"
  by (cases f; simp add: tick_defs split: prod.splits outcome.splits)+

lemma step_Fire_clock: "clock (step Fire s) = clock s"
proof (cases "interval s")
  case None
  then show ?thesis by simp
next
  case (Some t)
  let ?s0 = "s\<lparr>fired := Suc (fired s), interval := Some (t\<lparr>due := clock s + period t\<rparr>)\<rparr>"
  from closure_frame(1) [of "handler t" ?s0] Some show ?thesis
    by (auto simp: emit_def split: prod.splits outcome.splits)
qed






lemma fire_evaluates:
  assumes "interval s = Some t" and "due t \<le> clock s"
  shows "length (evaluations (step Fire s)) = Suc (length (evaluations s))"
  using assms
  by (cases "handler t")
     (auto simp: tick_defs evaluations_def evaluations_of_append split: prod.splits outcome.splits)

lemma fire_keeps_timer:
  assumes "interval s = Some t" and "handler t = SyncTick c cb \<or> handler t = AsyncTick c cb"
    and "fst (c (env s)) \<noteq> Returned True"
  shows "clock s < due t \<and> step Fire s = s \<or>
         interval (step Fire s) = Some (t\<lparr>due := clock s + period t\<rparr>) \<and>
         fired (step Fire s) = Suc (fired s) \<and> due t \<le> clock s"
proof (cases "fst (c (env s))")
  case (Threw x)
  then show ?thesis using assms(1,2)
    by (auto simp: tick_defs split: prod.splits outcome.splits)
next
  case (Returned b)
  with assms(3) have "\<not> b" by auto
  then show ?thesis using assms(1,2) Returned
    by (auto simp: tick_defs split: prod.splits outcome.splits)
qed

lemma polling_stays_step:
  assumes p: "polling f ms s" and f: "f = SyncTick c cb \<or> f = AsyncTick c cb"
    and never: "\<forall>e. fst (c e) \<noteq> Returned True"
  shows "polling f ms (step a s)"
proof (cases a)
  case Fire
  from p obtain t where t: "interval s = Some t" "handler t = f"
    by (auto simp: polling_def)
  from fire_keeps_timer [OF t(1), of c cb] t(2) f never
  have "interval (step Fire s) \<noteq> None" using t(1) by (auto simp del: step.simps)
  with polling_fire [OF p] Fire show ?thesis by (auto simp: finished_def)
next
  case (Advance d)
  then show ?thesis using p by (auto simp: polling_def)
next
  case (Other g)
  then show ?thesis using p by (auto simp: polling_def)
qed

lemma polling_stays_run:
  assumes "polling f ms s" and "f = SyncTick c cb \<or> f = AsyncTick c cb"
    and "\<forall>e. fst (c e) \<noteq> Returned True"
  shows "polling f ms (run acts s)"
  using assms(1)
proof (induction acts arbitrary: s)
  case Nil
  then show ?case by (simp add: run_def)
next
  case (Cons a acts)
  from Cons.IH [OF polling_stays_step [OF Cons.prems assms(2,3), of a]]
  show ?case by (simp add: run_def)
qed

lemma clock_poll_ticks: "clock (run (poll_ticks ms n) s) = clock s + n * ms"
proof (induction n arbitrary: s)
  case 0
  then show ?case by (simp add: run_def poll_ticks_def)
next
  case (Suc n)
  have "run (poll_ticks ms (Suc n)) s = run (poll_ticks ms n) (step Fire (step (Advance ms) s))"
    by (simp add: run_def poll_ticks_def)
  moreover have "clock (step Fire (step (Advance ms) s)) = clock s + ms"
    using step_Fire_clock [of "step (Advance ms) s"] by simp
  ultimately show ?case using Suc [of "step Fire (step (Advance ms) s)"]
    by (simp del: step.simps)
qed

lemma ticking_poll_ticks:
  assumes "polling f ms s" and "f = SyncTick c cb \<or> f = AsyncTick c cb"
    and "\<forall>e. fst (c e) \<noteq> Returned True" and "ticking ms k s"
  shows "ticking ms (k + n) (run (poll_ticks ms n) s)"
  using assms(1,4)
proof (induction n arbitrary: s k)
  case 0
  then show ?case by (simp add: run_def poll_ticks_def)
next
  case (Suc n)
  let ?s1 = "step (Advance ms) s"
  let ?s2 = "step Fire ?s1"
  have run: "run (poll_ticks ms (Suc n)) s = run (poll_ticks ms n) ?s2"
    by (simp add: run_def poll_ticks_def)
  have p1: "polling f ms ?s1" and p2: "polling f ms ?s2"
    using polling_stays_step [OF Suc.prems(1) assms(2,3)]
      polling_stays_step [OF _ assms(2,3)] by blast+
  from Suc.prems(2) obtain t where t: "interval s = Some t" "period t = ms"
    "due t \<le> clock s + ms" "fired s = k"
    by (auto simp: ticking_def)
  from Suc.prems(1) t(1) have h: "handler t = f" by (auto simp: polling_def)
  have t1: "interval ?s1 = Some t" "clock ?s1 = clock s + ms" "fired ?s1 = k"
    using t by simp_all
  from t(3) t1 have "\<not> clock ?s1 < due t" by simp
  have "ticking ms (Suc k) ?s2"
    using fire_keeps_timer [OF t1(1), of c cb] h assms(2,3) t1 t(2,3)
      step_Fire_clock [of ?s1]
    by (auto simp: ticking_def simp del: step.simps)
  from Suc.IH [OF p2 this] run show ?case by simp
qed

section \<open>Forgetting the promise commutes with the event loop\<close>

lemma evaluations_of_filter:
  "evaluations_of (filter (\<lambda>x. \<not> is_resolved x) tr) = evaluations_of tr"
  by (induction tr rule: evaluations_of.induct) auto

lemma invocations_of_filter:
  "invocations_of (filter (\<lambda>x. \<not> is_resolved x) tr) = invocations_of tr"
  by (induction tr rule: invocations_of.induct) auto

lemma forget_step: "forget_promise (step a s) = step a (forget_promise s)"
proof (cases a)
  case (Advance d)
  then show ?thesis by (simp add: forget_promise_def)
next
  case (Other g)
  then show ?thesis by (simp add: forget_promise_def)
next
  case Fire
  show ?thesis
  proof (cases "interval s")
    case None
    then show ?thesis using Fire by (simp add: forget_promise_def)
  next
    case (Some t)
    show ?thesis
    proof (cases "clock s < due t")
      case True
      then show ?thesis using Fire Some by (simp add: forget_promise_def)
    next
      case False
      show ?thesis
      proof (cases "handler t")
        case (SyncTick c cb)
        then show ?thesis using Fire Some False
          by (auto simp: tick_defs forget_promise_def as_sync_def split: prod.splits outcome.splits)
      next
        case (AsyncTick c cb)
        then show ?thesis using Fire Some False
          by (auto simp: tick_defs forget_promise_def as_sync_def split: prod.splits outcome.splits)
      qed
    qed
  qed
qed

lemma forget_run: "forget_promise (run acts s) = run acts (forget_promise s)"
  by (induction acts arbitrary: s) (simp_all add: run_def forget_step)

lemma forget_async: "forget_promise (async c cb i s0) = sync c cb i (forget_promise s0)"
  by (simp add: forget_promise_def async_def sync_def setInterval_def as_sync_def)

lemma forget_init: "forget_promise (init e t0) = init e t0"
  by (simp add: forget_promise_def init_def)

lemmas exec_defs = run_def sync_def async_def setInterval_def init_def interval_or_default_def
  host_delay_def
  sync_tick_def async_tick_def call_condition_def call_callback_def
  clearInterval_def resolve_def emit_def evaluations_def invocations_def

section \<open>Polling tick by tick\<close>

















section \<open>What the promise records\<close>

lemma quiet_resolved:
  "\<forall>(n, ev) \<in> set tr. quiet ev \<and> n < m \<Longrightarrow> filter is_resolved tr = []"
  by (induction tr rule: evaluations_of.induct) auto

lemma success_resolved:
  "filter is_resolved (success_events (AsyncTick c cb) n r) =
     (case r of Returned u \<Rightarrow> [(n, Resolved True)] | Threw x \<Rightarrow> [])"
  by (cases r) (simp_all add: success_events_def)

lemma async_promise_obs:
  assumes "polling (AsyncTick c cb) ms s \<or> finished (AsyncTick c cb) s"
  shows "promise s =
           (if Returned () \<in> snd ` set (invocations s) then Some (Fulfilled True)
            else Some Pending) \<and>
         filter is_resolved (trace s) =
           map (\<lambda>(n, r). (n, Resolved True)) (filter (\<lambda>(n, r). r = Returned ()) (invocations s))"
  using assms
proof
  assume p: "polling (AsyncTick c cb) ms s"
  then have q: "\<forall>(n, ev) \<in> set (trace s). quiet ev \<and> n < Suc (fired s)"
    by (fastforce simp: polling_def)
  from polling_obs(2,4) [OF p] quiet_resolved [OF q] show ?thesis
    by (simp add: initial_promise_def)
next
  assume fin: "finished (AsyncTick c cb) s"
  then obtain pre r where tr: "trace s = pre @ success_events (AsyncTick c cb) (fired s) r"
    and q: "\<forall>(n, ev) \<in> set pre. quiet ev \<and> n < fired s"
    and pr: "promise s = settled_promise (AsyncTick c cb) r"
    by (auto simp: finished_def)
  have inv: "invocations s = [(fired s, r)]"
    by (simp add: invocations_def tr invocations_of_append success_invocations
        quiet_invocations [OF q])
  show ?thesis
    using pr inv quiet_resolved [OF q]
    by (cases r) (simp_all add: tr success_resolved settled_promise_def)
qed

section \<open>The claims\<close>



text \<open>
  Claim C4. Once the condition has returned true on a tick, the repeating timer is
  cancelled and stays so, and whatever the host does later adds no evaluation: the true
  evaluation is the last one, and every earlier one was on an earlier tick.
\<close>

theorem condition_not_evaluated_after_true:
  assumes "s = run acts (sync c cb i (init e t0)) \<or> s = run acts (async c cb i (init e t0))"
    and "(N, Returned True) \<in> set (evaluations s)"
  shows "interval s = None \<and> interval (run later s) = None \<and>
         evaluations (run later s) = evaluations s \<and>
         (\<exists>earlier. evaluations s = earlier @ [(N, Returned True)] \<and>
            (\<forall>(n, r) \<in> set earlier. n < N \<and> r \<noteq> Returned True))"
proof -
  from assms(1) obtain f where "polling f (host_delay (interval_or_default i)) s \<or> finished f s"
    by (rule reach_cases)
  then have fin: "finished f s" using polling_obs(1) assms(2) by blast
  have N: "N = fired s" using finished_true_tick [OF fin assms(2)] .
  from finished_run [OF fin, of later] finished_obs [OF fin] N fin
  show ?thesis by (auto simp: evaluations_def finished_def)
qed

theorem condition_not_evaluated_after_true_witness:
  "(2, Returned True) \<in> set (evaluations test_async_2_1) \<and>
   interval test_async_2_1 = None \<and>
   interval (run [Advance 10, Fire, Advance 10, Fire] test_async_2_1) = None \<and>
   evaluations (run [Advance 10, Fire, Advance 10, Fire] test_async_2_1) =
     [(1, Returned False), (2, Returned True)]"
proof -
  have r: "test_async_2_1 =
      run [Advance 10, Fire, Advance 10, Fire, Advance 10, Fire]
        (sync (counting_condition 2) mock_callback (Some (Num 10)) (init (0, 0) 0)) \<or>
    test_async_2_1 =
      run [Advance 10, Fire, Advance 10, Fire, Advance 10, Fire]
        (async (counting_condition 2) mock_callback (Some (Num 10)) (init (0, 0) 0))"
    by (simp add: test_async_2_1_def)
  have ev: "evaluations test_async_2_1 = [(1, Returned False), (2, Returned True)]"
    by (simp add: test_async_2_1_def exec_defs counting_condition_def mock_callback_def)
  then have t: "(2, Returned True) \<in> set (evaluations test_async_2_1)" by simp
  from condition_not_evaluated_after_true [OF r t, of "[Advance 10, Fire, Advance 10, Fire]"]
    ev t show ?thesis by simp
qed

text \<open>
  Claim C5. Per invocation, a callback invocation and a timeout signal together occur at
  most once (the code never signals a timeout), and once one has occurred the timer is
  cancelled for good and the condition is not evaluated again.
\<close>

theorem callback_or_timeout_at_most_once:
  assumes "s = run acts (sync c cb i (init e t0)) \<or> s = run acts (async c cb i (init e t0))"
  shows "length (invocations s) + (if timeout_signaled s then 1 else 0) \<le> 1 \<and>
         (invocations s \<noteq> [] \<or> timeout_signaled s \<longrightarrow>
            interval s = None \<and> interval (run later s) = None \<and>
            evaluations (run later s) = evaluations s)"
proof -
  from assms obtain f where f: "f = SyncTick c cb \<or> f = AsyncTick c cb"
    and pf: "polling f (host_delay (interval_or_default i)) s \<or> finished f s"
    by (rule reach_cases)
  from pf show ?thesis
  proof
    assume p: "polling f (host_delay (interval_or_default i)) s"
    from polling_obs(2,4) [OF p] f show ?thesis
      by (auto simp: timeout_signaled_def initial_promise_def)
  next
    assume fin: "finished f s"
    from finished_obs [OF fin] obtain r where
      "invocations s = [(fired s, r)]" "promise s = settled_promise f r" by blast
    moreover have "\<not> timeout_signaled s"
      using f \<open>promise s = settled_promise f r\<close>
      by (cases r) (auto simp: timeout_signaled_def settled_promise_def)
    ultimately show ?thesis using finished_run [OF fin, of later] fin
      by (auto simp: evaluations_def finished_def)
  qed
qed

theorem callback_or_timeout_at_most_once_witness:
  "invocations test_sync_1_1 = [(3, Returned ())] \<and> \<not> timeout_signaled test_sync_1_1 \<and>
   interval test_sync_1_1 = None \<and>
   interval (run [Advance 10, Fire] test_sync_1_1) = None \<and>
   evaluations (run [Advance 10, Fire] test_sync_1_1) = evaluations test_sync_1_1"
proof -
  have r: "test_sync_1_1 =
      run [Advance 10, Fire, Advance 10, Fire, Advance 10, Fire, Advance 10, Fire, Advance 10, Fire]
        (sync (counting_condition 3) mock_callback (Some (Num 10)) (init (0, 0) 0)) \<or>
    test_sync_1_1 =
      run [Advance 10, Fire, Advance 10, Fire, Advance 10, Fire, Advance 10, Fire, Advance 10, Fire]
        (async (counting_condition 3) mock_callback (Some (Num 10)) (init (0, 0) 0))"
    by (simp add: test_sync_1_1_def)
  have inv: "invocations test_sync_1_1 = [(3, Returned ())]"
    by (simp add: test_sync_1_1_def exec_defs counting_condition_def mock_callback_def)
  have "\<not> timeout_signaled test_sync_1_1"
    by (simp add: test_sync_1_1_def exec_defs timeout_signaled_def
        counting_condition_def mock_callback_def)
  with callback_or_timeout_at_most_once [OF r, of "[Advance 10, Fire]"] inv
  show ?thesis by simp
qed

text \<open>
  Claim C6, as the code has it. When the condition of an \<^verbatim>\<open>async\<close> invocation returns true
  on tick \<open>N\<close>, the callback is invoked exactly once, on that tick. If the callback returns,
  \<^verbatim>\<open>resolve(true)\<close> is the very next event and the promise is fulfilled with \<open>True\<close>; if the
  callback throws, the promise is still pending.
\<close>

theorem async_fulfilled_after_returning_callback:
  assumes "s = run acts (async c cb i (init e t0))"
    and "(N, Returned True) \<in> set (evaluations s)"
  shows "\<exists>r. invocations s = [(N, r)] \<and>
           (r = Returned () \<longrightarrow>
              promise s = Some (Fulfilled True) \<and>
              (\<exists>pre. trace s = pre @ [(N, Called r), (N, Resolved True)])) \<and>
           (\<forall>x. r = Threw x \<longrightarrow> promise s = Some Pending)"
proof -
  let ?f = "AsyncTick c cb"
  from polling_run [OF polling_async [of c cb i e t0], of acts] assms(1)
  have "polling ?f (host_delay (interval_or_default i)) s \<or> finished ?f s" by simp
  then have fin: "finished ?f s" using polling_obs(1) assms(2) by blast
  have N: "N = fired s" using finished_true_tick [OF fin assms(2)] .
  from finished_obs [OF fin] obtain r pre where
    inv: "invocations s = [(fired s, r)]" and pr: "promise s = settled_promise ?f r"
    and tr: "trace s = pre @ success_events ?f (fired s) r" by blast
  have a: "invocations s = [(N, r)]" using inv N by simp
  have b: "promise s = Some (Fulfilled True) \<and>
      (\<exists>pre. trace s = pre @ [(N, Called r), (N, Resolved True)])" if r: "r = Returned ()"
  proof -
    have "trace s = (pre @ [(N, Evaluated (Returned True)), (N, Cleared)]) @
        [(N, Called r), (N, Resolved True)]"
      using tr r N by (simp add: success_events_def)
    then have "\<exists>pre. trace s = pre @ [(N, Called r), (N, Resolved True)]" by blast
    then show ?thesis using pr r by (simp add: settled_promise_def)
  qed
  have c: "promise s = Some Pending" if "r = Threw x" for x
    using pr that by (simp add: settled_promise_def)
  from a b c show ?thesis by blast
qed

theorem async_fulfilled_after_returning_callback_witness:
  "(2, Returned True) \<in> set (evaluations test_async_2_1) \<and>
   invocations test_async_2_1 = [(2, Returned ())] \<and>
   promise test_async_2_1 = Some (Fulfilled True) \<and>
   trace test_async_2_1 =
     [(1, Evaluated (Returned False)), (2, Evaluated (Returned True)), (2, Cleared)] @
     [(2, Called (Returned ())), (2, Resolved True)]"
proof -
  have r: "test_async_2_1 =
      run [Advance 10, Fire, Advance 10, Fire, Advance 10, Fire]
        (async (counting_condition 2) mock_callback (Some (Num 10)) (init (0, 0) 0))"
    by (simp add: test_async_2_1_def)
  have ev: "(2, Returned True) \<in> set (evaluations test_async_2_1)"
    by (simp add: test_async_2_1_def exec_defs counting_condition_def mock_callback_def)
  have tr: "trace test_async_2_1 =
      [(1, Evaluated (Returned False)), (2, Evaluated (Returned True)), (2, Cleared),
       (2, Called (Returned ())), (2, Resolved True)]"
    by (simp add: test_async_2_1_def exec_defs counting_condition_def mock_callback_def)
  then have inv: "invocations test_async_2_1 = [(2, Returned ())]"
    by (simp add: invocations_def)
  from async_fulfilled_after_returning_callback [OF r ev] inv
  have "promise test_async_2_1 = Some (Fulfilled True)" by auto
  with ev inv tr show ?thesis by simp
qed

text \<open>
  Claim C6 as stated fails when the callback throws: the condition has returned true and
  the callback has been invoked once, the timer is cancelled, and five seconds later the
  promise is still pending, since \<^verbatim>\<open>resolve(true)\<close> was never reached.
\<close>

theorem async_stays_pending_when_callback_throws:
  "evaluations stuck_async = [(1, Returned True)] \<and>
   invocations stuck_async = [(1, Threw ''boom'')] \<and>
   promise stuck_async = Some Pending \<and> interval stuck_async = None \<and>
   clock stuck_async = 5100"
  by (simp add: stuck_async_def exec_defs always_true_def throwing_callback_def)




text \<open>
  Claim C8. Neither tick catches: if the condition throws \<open>x\<close>, the tick of \<^verbatim>\<open>sync\<close> and the
  tick of \<^verbatim>\<open>async\<close> both end by throwing \<open>x\<close> to the host, with the timer and the promise
  as they were; if the condition returns true and the callback throws \<open>x\<close>, both ticks end
  by throwing \<open>x\<close> and the promise is as it was, neither rejected nor fulfilled.
\<close>

theorem throws_leave_the_tick:
  "(fst (conditionFn (env s)) = Threw x \<longrightarrow>
      fst (sync_tick conditionFn callback s) = Threw x \<and>
      fst (async_tick conditionFn callback s) = Threw x \<and>
      promise (snd (async_tick conditionFn callback s)) = promise s \<and>
      interval (snd (sync_tick conditionFn callback s)) = interval s \<and>
      interval (snd (async_tick conditionFn callback s)) = interval s) \<and>
   (fst (conditionFn (env s)) = Returned True \<and>
    fst (callback (snd (conditionFn (env s)))) = Threw x \<longrightarrow>
      fst (sync_tick conditionFn callback s) = Threw x \<and>
      fst (async_tick conditionFn callback s) = Threw x \<and>
      promise (snd (async_tick conditionFn callback s)) = promise s)"
  by (auto simp: tick_defs split: prod.splits outcome.splits)

theorem throws_leave_the_tick_witness:
  "fst (sync_tick throwing_condition mock_callback
          (async always_true mock_callback None (init (0, 0) 0))) = Threw ''bad'' \<and>
   fst (async_tick throwing_condition mock_callback
          (async always_true mock_callback None (init (0, 0) 0))) = Threw ''bad'' \<and>
   promise (snd (async_tick throwing_condition mock_callback
          (async always_true mock_callback None (init (0, 0) 0)))) = Some Pending \<and>
   fst (sync_tick always_true throwing_callback
          (async always_true mock_callback None (init (0, 0) 0))) = Threw ''boom'' \<and>
   fst (async_tick always_true throwing_callback
          (async always_true mock_callback None (init (0, 0) 0))) = Threw ''boom'' \<and>
   promise (snd (async_tick always_true throwing_callback
          (async always_true mock_callback None (init (0, 0) 0)))) = Some Pending"
proof -
  let ?s = "async always_true mock_callback None (init (0::nat, 0::nat) 0)"
  have p: "promise ?s = Some Pending" by (simp add: exec_defs)
  have h1: "fst (throwing_condition (env ?s)) = Threw ''bad''"
    by (simp add: throwing_condition_def)
  have h2: "fst (always_true (env ?s)) = Returned True \<and>
      fst (throwing_callback (snd (always_true (env ?s)))) = Threw ''boom''"
    by (simp add: always_true_def throwing_callback_def)
  from throws_leave_the_tick [of throwing_condition ?s "''bad''" mock_callback] h1
    throws_leave_the_tick [of always_true ?s "''boom''" throwing_callback] h2 p
  show ?thesis by simp
qed

text \<open>
  Claim C9. The promise of \<^verbatim>\<open>async\<close> is never rejected: after every schedule it is pending or
  fulfilled with \<open>True\<close>. While no evaluation has returned true it is pending and the timer
  is still registered, and whenever that timer is due, firing it evaluates the condition
  once more.
\<close>

theorem async_never_rejects:
  assumes "s = run acts (async c cb i (init e t0))"
  shows "(promise s = Some Pending \<or> promise s = Some (Fulfilled True)) \<and>
         ((\<forall>N. (N, Returned True) \<notin> set (evaluations s)) \<longrightarrow>
            promise s = Some Pending \<and> interval s \<noteq> None \<and>
            (\<forall>t. interval s = Some t \<and> due t \<le> clock s \<longrightarrow>
               length (evaluations (step Fire s)) = Suc (length (evaluations s))))"
proof -
  let ?f = "AsyncTick c cb"
  from polling_run [OF polling_async [of c cb i e t0], of acts] assms
  have "polling ?f (host_delay (interval_or_default i)) s \<or> finished ?f s" by simp
  then show ?thesis
  proof
    assume p: "polling ?f (host_delay (interval_or_default i)) s"
    from polling_obs(3,4) [OF p] fire_evaluates [of s] show ?thesis
      by (auto simp: initial_promise_def)
  next
    assume fin: "finished ?f s"
    from finished_obs [OF fin] obtain earlier r where
      ev: "evaluations s = earlier @ [(fired s, Returned True)]"
      and pr: "promise s = settled_promise ?f r" by blast
    from ev have "(fired s, Returned True) \<in> set (evaluations s)" by simp
    moreover from pr have "promise s = Some Pending \<or> promise s = Some (Fulfilled True)"
      by (cases r) (auto simp: settled_promise_def)
    ultimately show ?thesis by blast
  qed
qed

theorem async_never_rejects_witness:
  "evaluations (run [Advance 10, Fire, Advance 10]
      (async never_true mock_callback (Some (Num 10)) (init (0, 0) 0))) = [(1, Returned False)] \<and>
   promise (run [Advance 10, Fire, Advance 10]
      (async never_true mock_callback (Some (Num 10)) (init (0, 0) 0))) = Some Pending \<and>
   interval (run [Advance 10, Fire, Advance 10]
      (async never_true mock_callback (Some (Num 10)) (init (0, 0) 0))) =
     Some \<lparr>handler = AsyncTick never_true mock_callback, period = 10, due = 20\<rparr> \<and>
   clock (run [Advance 10, Fire, Advance 10]
      (async never_true mock_callback (Some (Num 10)) (init (0, 0) 0))) = 20 \<and>
   length (evaluations (step Fire (run [Advance 10, Fire, Advance 10]
      (async never_true mock_callback (Some (Num 10)) (init (0, 0) 0))))) = 2"
proof -
  let ?s = "run [Advance 10, Fire, Advance 10]
      (async never_true mock_callback (Some (Num 10)) (init (0::nat, 0::nat) 0))"
  let ?t = "\<lparr>handler = AsyncTick never_true mock_callback, period = 10, due = 20\<rparr>"
  have ev: "evaluations ?s = [(1, Returned False)]"
    by (simp add: exec_defs never_true_def)
  then have no: "\<forall>N. (N, Returned True) \<notin> set (evaluations ?s)" by simp
  have t: "interval ?s = Some ?t \<and> due ?t \<le> clock ?s" and c: "clock ?s = 20"
    by (simp_all add: exec_defs never_true_def)
  from async_never_rejects [OF refl, of "[Advance 10, Fire, Advance 10]" never_true
      mock_callback "Some (Num 10)" "(0, 0)" 0] no t
  have "promise ?s = Some Pending \<and>
      length (evaluations (step Fire ?s)) = Suc (length (evaluations ?s))"
    by blast
  with ev t c show ?thesis by (simp del: step.simps)
qed

text \<open>
  Claim C10, as the code has it. For the same condition, callback and interval, and under
  the same schedule of the host, \<^verbatim>\<open>async\<close> and \<^verbatim>\<open>sync\<close> evaluate the condition on the same
  ticks with the same results, invoke the callback on the same tick and leave the same
  environment and the same timer state: the run of \<^verbatim>\<open>async\<close> with the promise forgotten
  is the run of \<^verbatim>\<open>sync\<close>. What is forgotten is this and no more: \<^verbatim>\<open>sync\<close> has no promise;
  the promise of \<^verbatim>\<open>async\<close> is fulfilled with \<open>True\<close> once the callback has been invoked and
  has returned, with one \<^verbatim>\<open>resolve(true)\<close> on the tick of that invocation, and is pending
  otherwise.
\<close>

theorem async_is_sync_plus_promise:
  "forget_promise (run acts (async c cb i (init e t0))) = run acts (sync c cb i (init e t0)) \<and>
   evaluations (run acts (async c cb i (init e t0))) =
     evaluations (run acts (sync c cb i (init e t0))) \<and>
   invocations (run acts (async c cb i (init e t0))) =
     invocations (run acts (sync c cb i (init e t0))) \<and>
   env (run acts (async c cb i (init e t0))) = env (run acts (sync c cb i (init e t0))) \<and>
   (interval (run acts (async c cb i (init e t0))) = None) =
     (interval (run acts (sync c cb i (init e t0))) = None) \<and>
   promise (run acts (sync c cb i (init e t0))) = None \<and>
   promise (run acts (async c cb i (init e t0))) =
     (if Returned () \<in> snd ` set (invocations (run acts (async c cb i (init e t0))))
      then Some (Fulfilled True) else Some Pending) \<and>
   filter is_resolved (trace (run acts (async c cb i (init e t0)))) =
     map (\<lambda>(n, r). (n, Resolved True))
       (filter (\<lambda>(n, r). r = Returned ()) (invocations (run acts (async c cb i (init e t0)))))"
proof -
  let ?a = "run acts (async c cb i (init e t0))"
  let ?s = "run acts (sync c cb i (init e t0))"
  have eq: "forget_promise ?a = ?s"
    by (simp add: forget_run forget_async forget_init)
  have "evaluations (forget_promise ?a) = evaluations ?a"
    by (simp add: evaluations_def forget_promise_def evaluations_of_filter)
  moreover have "invocations (forget_promise ?a) = invocations ?a"
    by (simp add: invocations_def forget_promise_def invocations_of_filter)
  moreover have "env (forget_promise ?a) = env ?a"
    by (simp add: forget_promise_def)
  moreover have "(interval (forget_promise ?a) = None) = (interval ?a = None)"
    by (simp add: forget_promise_def)
  moreover have "promise (forget_promise ?a) = None"
    by (simp add: forget_promise_def)
  ultimately have sync_part: "evaluations ?a = evaluations ?s \<and> invocations ?a = invocations ?s \<and>
      env ?a = env ?s \<and> (interval ?a = None) = (interval ?s = None) \<and> promise ?s = None"
    using eq by simp
  from async_promise_obs [OF polling_run [OF polling_async [of c cb i e t0], of acts]]
    eq sync_part show ?thesis by blast
qed

theorem async_is_sync_plus_promise_witness:
  "forget_promise test_async_2_1 =
     run [Advance 10, Fire, Advance 10, Fire, Advance 10, Fire]
       (sync (counting_condition 2) mock_callback (Some (Num 10)) (init (0, 0) 0)) \<and>
   invocations test_async_2_1 = [(2, Returned ())] \<and>
   promise test_async_2_1 = Some (Fulfilled True) \<and>
   filter is_resolved (trace test_async_2_1) = [(2, Resolved True)]"
proof -
  have inv: "invocations test_async_2_1 = [(2, Returned ())]"
    by (simp add: test_async_2_1_def exec_defs tick_defs counting_condition_def mock_callback_def)
  from async_is_sync_plus_promise
    [of "[Advance 10, Fire, Advance 10, Fire, Advance 10, Fire]" "counting_condition 2"
      mock_callback "Some (Num 10)" "(0, 0)" 0]
  show ?thesis unfolding test_async_2_1_def [symmetric] inv by simp
qed

text \<open>
  Claim C10 as stated fails when the callback throws: \<^verbatim>\<open>async\<close> and \<^verbatim>\<open>sync\<close> evaluate and
  invoke alike, on tick 2, but \<^verbatim>\<open>async\<close> does not fulfil its promise, which stays pending.
\<close>

theorem async_promise_pending_where_sync_agrees:
  "evaluations throwing_async_run = evaluations throwing_sync_run \<and>
   invocations throwing_async_run = [(2, Threw ''boom'')] \<and>
   invocations throwing_sync_run = [(2, Threw ''boom'')] \<and>
   interval throwing_async_run = None \<and> interval throwing_sync_run = None \<and>
   promise throwing_async_run = Some Pending"
  by (simp add: throwing_async_run_def throwing_sync_run_def exec_defs counting_condition_def
      throwing_callback_def)

text \<open>
  Claim C1 does not hold of the code. \<^verbatim>\<open>async\<close> has no timeout parameter and no path
  that rejects: \<^verbatim>\<open>when.async(() => false, cb, 10)\<close>, for which the README documents a default
  timeout of 5000 ms and a rejection, is still pending after 6000 ms and 600 ticks, its
  timer still registered.
\<close>

theorem async_default_timeout_never_fires:
  "clock test_async_2_3 = 6000 \<and> fired test_async_2_3 = 600 \<and>
   promise test_async_2_3 = Some Pending \<and> interval test_async_2_3 \<noteq> None \<and>
   invocations test_async_2_3 = []"
proof -
  let ?f = "AsyncTick never_true mock_callback"
  let ?s0 = "async never_true mock_callback (Some (Num 10)) (init (0, 0) 0)"
  have never: "\<forall>e::nat \<times> nat. fst (never_true e) \<noteq> Returned True"
    by (simp add: never_true_def)
  have p0: "polling ?f 10 ?s0"
    using polling_async [of never_true mock_callback "Some (Num 10)" "(0, 0)" 0]
    by (simp add: interval_or_default_def host_delay_def)
  have f: "?f = SyncTick never_true mock_callback \<or> ?f = AsyncTick never_true mock_callback"
    by simp
  have t0: "ticking 10 0 ?s0"
    by (simp add: ticking_def async_def setInterval_def init_def interval_or_default_def
        host_delay_def)
  have p: "polling ?f 10 test_async_2_3"
    unfolding test_async_2_3_def by (rule polling_stays_run [OF p0 f never])
  have "ticking 10 (0 + 600) test_async_2_3"
    unfolding test_async_2_3_def by (rule ticking_poll_ticks [OF p0 f never t0])
  then have "fired test_async_2_3 = 600" by (simp add: ticking_def)
  moreover have "clock test_async_2_3 = 6000"
    by (simp add: test_async_2_3_def clock_poll_ticks async_def setInterval_def init_def)
  ultimately show ?thesis using polling_obs(2,3,4) [OF p]
    by (simp add: initial_promise_def)
qed

text \<open>
  Claim C2 does not hold of the code. \<^verbatim>\<open>sync\<close> declares no fourth parameter: the call
  \<^verbatim>\<open>when.sync(cond, cb, 10, 25)\<close> keeps polling past its 25 ms deadline and invokes the
  callback on the fifth tick, at 50 ms.
\<close>

theorem sync_ignores_deadline:
  "clock readme_sync_timeout = 50 \<and>
   evaluations readme_sync_timeout =
     [(1, Returned False), (2, Returned False), (3, Returned False), (4, Returned False),
      (5, Returned True)] \<and>
   invocations readme_sync_timeout = [(5, Returned ())] \<and>
   env readme_sync_timeout = (5, 1)"
  by (simp add: readme_sync_timeout_def exec_defs counting_condition_def mock_callback_def)

end
